theory Spec2Isabelle
  imports Main "HOL-Library.Word"
begin

section \<open>Data model of the TDR watchdog (amdxdna\_tdr.c)\<close>

text \<open>
  A hardware context as \<open>amdxdna_tdr_work\<close> reads it: the debug name and the three
  \<open>u64\<close> counters that the function copies into its locals \<open>submitted\<close>,
  \<open>completed\<close> and \<open>last\<close>.
\<close>

record amdxdna_hwctx =
  name :: string
  submitted :: "64 word"
  completed :: "64 word"
  tdr_last_completed :: "64 word"

text \<open>
  A client owns an idr of hardware contexts. \<open>idr_for_each_entry_continue\<close> with
  \<open>next = 0\<close> walks the entries in ascending id order, so the idr is the list of its
  entries in that order.
\<close>

record amdxdna_client =
  hwctx_idr :: "amdxdna_hwctx list"

text \<open>
  The watchdog object. The declaration of \<open>struct amdxdna_tdr\<close> is in a header that
  is not part of the sources at hand; the fields are those the C file uses.
  \<open>tdr_counter\<close> is printed with \<open>%d\<close> and is a 32-bit counter whose \<open>++\<close> wraps;
  \<open>started\<close> is only written with 1 and tested for zero.
  The two kernel objects are reduced to the one bit of each that the lifecycle depends
  on: \<open>timer_pending\<close> says that \<open>timer\<close> is armed, \<open>work_pending\<close> that
  \<open>tdr_work\<close> is queued on \<open>system_long_wq\<close> and not yet picked up by a worker.
  Expiry times are not modelled.
\<close>

record amdxdna_tdr =
  timer_pending :: bool
  work_pending :: bool
  tdr_counter :: "32 word"
  started :: bool

text \<open>
  The device: the client list, the watchdog embedded in it (\<open>tdr_to_xdna_dev\<close> is
  \<open>container_of\<close>), and whether \<open>dev_info->ops->recover\<close> is a non-NULL function
  pointer.
\<close>

record amdxdna_dev =
  client_list :: "amdxdna_client list"
  ops_recover :: bool
  tdr :: amdxdna_tdr

text \<open>
  The locals of \<open>amdxdna_tdr_work\<close> that survive the loops. Both counters are
  \<open>int\<close>; they are only incremented and compared for equality, and are kept as
  32-bit words.
\<close>

record tdr_scan =
  active :: bool
  stop_cnt :: "32 word"
  ctx_cnt :: "32 word"

definition tdr_scan_init :: tdr_scan where
  "tdr_scan_init = \<lparr>active = False, stop_cnt = 0, ctx_cnt = 0\<rparr>"

text \<open>
  Calling through a NULL function pointer is the one way the C code can fail; the call of
  a present \<open>recover\<close> is an event of the run. What the device-specific recovery does
  to the device is outside this file and is not modelled.
\<close>

datatype tdr_error = NullCall

datatype tdr_event = Recover

section \<open>The liveness scan\<close>

text \<open>
  The inner loop over one client's contexts. Every visited context is counted; an idle
  one (\<open>submitted == completed\<close>) is counted in \<open>stop_cnt\<close> and skipped; a busy one
  whose \<open>completed\<close> differs from the snapshot gets the snapshot refreshed, sets
  \<open>active\<close> and ends the loop (\<open>break\<close>); a busy one with an unchanged snapshot is
  passed over.
\<close>

fun scan_hwctx_idr :: "amdxdna_hwctx list \<Rightarrow> tdr_scan \<Rightarrow> amdxdna_hwctx list \<times> tdr_scan" where
  "scan_hwctx_idr [] sc = ([], sc)"
| "scan_hwctx_idr (hwctx # rest) sc =
     (let sc1 = sc\<lparr>ctx_cnt := ctx_cnt sc + 1\<rparr> in
      if submitted hwctx = completed hwctx then
        (let (rest', sc2) = scan_hwctx_idr rest (sc1\<lparr>stop_cnt := stop_cnt sc1 + 1\<rparr>)
         in (hwctx # rest', sc2))
      else if tdr_last_completed hwctx \<noteq> completed hwctx then
        (hwctx\<lparr>tdr_last_completed := completed hwctx\<rparr> # rest, sc1\<lparr>active := True\<rparr>)
      else
        (let (rest', sc2) = scan_hwctx_idr rest sc1 in (hwctx # rest', sc2)))"

text \<open>The outer loop over the clients, left as soon as \<open>active\<close> is set.\<close>

fun scan_client_list :: "amdxdna_client list \<Rightarrow> tdr_scan \<Rightarrow> amdxdna_client list \<times> tdr_scan" where
  "scan_client_list [] sc = ([], sc)"
| "scan_client_list (client # rest) sc =
     (let (idr', sc1) = scan_hwctx_idr (hwctx_idr client) sc;
          client' = client\<lparr>hwctx_idr := idr'\<rparr>
      in if active sc1 then (client' # rest, sc1)
         else (let (rest', sc2) = scan_client_list rest sc1 in (client' # rest', sc2)))"

text \<open>
  One run of the work item: the scan under \<open>dev_lock\<close>, then the decision. The counter
  is incremented (inside the argument list of the warning) before \<open>recover\<close> is called.
  The result is the device as the run leaves it at the point of the call, with the
  calls it made.
\<close>

definition amdxdna_tdr_work :: "amdxdna_dev \<Rightarrow> tdr_error + amdxdna_dev \<times> tdr_event list" where
  "amdxdna_tdr_work xdna =
     (let (clients', sc) = scan_client_list (client_list xdna) tdr_scan_init;
          xdna1 = xdna\<lparr>client_list := clients'\<rparr>
      in if ctx_cnt sc \<noteq> stop_cnt sc \<and> \<not> active sc then
           (let xdna2 = xdna1\<lparr>tdr := (tdr xdna1)\<lparr>tdr_counter := tdr_counter (tdr xdna1) + 1\<rparr>\<rparr>
            in if ops_recover xdna2 then Inr (xdna2, [Recover]) else Inl NullCall)
         else Inr (xdna1, []))"

text \<open>The contexts of a device in the order in which the scan meets them.\<close>

definition all_hwctx :: "amdxdna_client list \<Rightarrow> amdxdna_hwctx list" where
  "all_hwctx clients = concat (map hwctx_idr clients)"

text \<open>The two tests the loop body makes on a context.\<close>

definition hwctx_idle :: "amdxdna_hwctx \<Rightarrow> bool" where
  "hwctx_idle h \<longleftrightarrow> submitted h = completed h"

definition hwctx_progressed :: "amdxdna_hwctx \<Rightarrow> bool" where
  "hwctx_progressed h \<longleftrightarrow> submitted h \<noteq> completed h \<and> tdr_last_completed h \<noteq> completed h"

section \<open>Timer handler, start and stop\<close>

text \<open>
  The timer handler queues the work item (\<open>queue_work\<close> leaves an already queued item
  queued) and re-arms the timer (\<open>mod_timer\<close>).
\<close>

definition amdxdna_tdr_timer :: "amdxdna_dev \<Rightarrow> amdxdna_dev" where
  "amdxdna_tdr_timer xdna =
     xdna\<lparr>tdr := (tdr xdna)\<lparr>work_pending := True, timer_pending := True\<rparr>\<rparr>"

text \<open>
  \<open>amdxdna_tdr_start\<close> reads the module parameter \<open>timeout_in_sec\<close> (a \<open>uint\<close>),
  here its first argument. It returns early when \<open>recover\<close> is NULL or the timeout is
  zero. Otherwise \<open>timer_setup\<close> and \<open>INIT_WORK\<close> initialise both objects (neither
  pending), \<open>add_timer\<close> arms the timer and \<open>started\<close> is set. The function does not
  test \<open>started\<close>: a second successful start writes the same initial values again.
\<close>

definition amdxdna_tdr_start :: "32 word \<Rightarrow> amdxdna_dev \<Rightarrow> amdxdna_dev" where
  "amdxdna_tdr_start timeout_in_sec xdna =
     (if \<not> ops_recover xdna then xdna
      else if timeout_in_sec = 0 then xdna
      else xdna\<lparr>tdr := (tdr xdna)\<lparr>work_pending := False, timer_pending := True,
                                  started := True\<rparr>\<rparr>)"

text \<open>
  \<open>amdxdna_tdr_stop\<close> returns early when the watchdog was not started. Otherwise its
  only action is \<open>timer_delete_sync\<close> on the timer: the timer is deactivated, and the
  call waits for a running handler of that timer. The work item is not touched, and
  \<open>started\<close> is not reset.
\<close>

definition amdxdna_tdr_stop :: "amdxdna_dev \<Rightarrow> amdxdna_dev" where
  "amdxdna_tdr_stop xdna =
     (if \<not> started (tdr xdna) then xdna
      else xdna\<lparr>tdr := (tdr xdna)\<lparr>timer_pending := False\<rparr>\<rparr>)"

section \<open>The watchdog in its environment\<close>

text \<open>
  The functions above are called by the rest of the driver and by the kernel. The events:
  the driver calls start (with the current value of \<open>timeout_in_sec\<close>) or stop; an armed
  timer expires, which detaches it and runs the handler; a worker of \<open>system_long_wq\<close>
  picks up the queued work item, which clears its pending bit and runs
  \<open>amdxdna_tdr_work\<close>; the rest of the driver changes the client list (contexts are
  opened and closed, jobs are submitted and complete). Each event is taken as one atomic
  step. An expiry without an armed timer and a worker without a queued item do nothing.
  Two counters observe the run: the executions of \<open>amdxdna_tdr_work\<close> and the calls
  of \<open>recover\<close>.
\<close>

datatype sys_event =
    Start "32 word"
  | Stop
  | TimerExpire
  | WorkerRun
  | Env "amdxdna_client list"

record tdr_sys =
  sys_dev :: amdxdna_dev
  work_runs :: nat
  recover_calls :: nat

fun sys_step :: "sys_event \<Rightarrow> tdr_sys \<Rightarrow> tdr_error + tdr_sys" where
  "sys_step (Start timeout_in_sec) s =
     Inr (s\<lparr>sys_dev := amdxdna_tdr_start timeout_in_sec (sys_dev s)\<rparr>)"
| "sys_step Stop s = Inr (s\<lparr>sys_dev := amdxdna_tdr_stop (sys_dev s)\<rparr>)"
| "sys_step TimerExpire s =
     (if timer_pending (tdr (sys_dev s)) then
        Inr (s\<lparr>sys_dev := amdxdna_tdr_timer
                 ((sys_dev s)\<lparr>tdr := (tdr (sys_dev s))\<lparr>timer_pending := False\<rparr>\<rparr>)\<rparr>)
      else Inr s)"
| "sys_step WorkerRun s =
     (if work_pending (tdr (sys_dev s)) then
        (case amdxdna_tdr_work
                ((sys_dev s)\<lparr>tdr := (tdr (sys_dev s))\<lparr>work_pending := False\<rparr>\<rparr>) of
           Inl err \<Rightarrow> Inl err
         | Inr (xdna', evs) \<Rightarrow>
             Inr (s\<lparr>sys_dev := xdna', work_runs := work_runs s + 1,
                    recover_calls := recover_calls s + length evs\<rparr>))
      else Inr s)"
| "sys_step (Env clients) s = Inr (s\<lparr>sys_dev := (sys_dev s)\<lparr>client_list := clients\<rparr>\<rparr>)"

fun sys_run :: "sys_event list \<Rightarrow> tdr_sys \<Rightarrow> tdr_error + tdr_sys" where
  "sys_run [] s = Inr s"
| "sys_run (e # es) s =
     (case sys_step e s of Inl err \<Rightarrow> Inl err | Inr s' \<Rightarrow> sys_run es s')"

text \<open>
  A device on which the watchdog has never been started: \<open>started\<close> is zero and neither
  kernel object is pending.
\<close>

definition tdr_fresh :: "amdxdna_dev \<Rightarrow> bool" where
  "tdr_fresh xdna \<longleftrightarrow>
     \<not> started (tdr xdna) \<and> \<not> timer_pending (tdr xdna) \<and> \<not> work_pending (tdr xdna)"

text \<open>
  The invariant of the lifecycle: the timer or the work item is pending only on a device
  whose \<open>recover\<close> is present.
\<close>

definition tdr_armed_ok :: "amdxdna_dev \<Rightarrow> bool" where
  "tdr_armed_ok xdna \<longleftrightarrow>
     (timer_pending (tdr xdna) \<or> work_pending (tdr xdna) \<longrightarrow> ops_recover xdna)"

text \<open>
  A start event whose call finds the watchdog disabled: \<open>recover\<close> is NULL on the device
  or the timeout it reads is zero. Every other event passes.
\<close>

fun start_disabled :: "amdxdna_dev \<Rightarrow> sys_event \<Rightarrow> bool" where
  "start_disabled xdna (Start timeout_in_sec) \<longleftrightarrow> \<not> ops_recover xdna \<or> timeout_in_sec = 0"
| "start_disabled xdna e \<longleftrightarrow> True"

text \<open>
  A sequence of scan cycles: before each run of the work item the rest of the driver has
  brought the client list to the given state.
\<close>

fun tdr_cycles :: "amdxdna_client list list \<Rightarrow> amdxdna_dev \<Rightarrow> tdr_error + amdxdna_dev \<times> tdr_event list" where
  "tdr_cycles [] xdna = Inr (xdna, [])"
| "tdr_cycles (clients # later) xdna =
     (case amdxdna_tdr_work (xdna\<lparr>client_list := clients\<rparr>) of
        Inl err \<Rightarrow> Inl err
      | Inr (xdna', evs) \<Rightarrow>
          (case tdr_cycles later xdna' of
             Inl err \<Rightarrow> Inl err
           | Inr (xdna'', evs') \<Rightarrow> Inr (xdna'', evs @ evs')))"

section \<open>Example devices\<close>

text \<open>
  Two clients with three contexts: one idle, two busy with \<open>completed\<close> equal to the
  snapshot. The watchdog is started and \<open>recover\<close> is present.
\<close>

definition ex_dev :: amdxdna_dev where
  "ex_dev =
     \<lparr>client_list =
        [\<lparr>hwctx_idr = [\<lparr>name = ''hwctx.1'', submitted = 5, completed = 5, tdr_last_completed = 3\<rparr>,
                       \<lparr>name = ''hwctx.2'', submitted = 10, completed = 7, tdr_last_completed = 7\<rparr>]\<rparr>,
         \<lparr>hwctx_idr = [\<lparr>name = ''hwctx.3'', submitted = 10, completed = 7, tdr_last_completed = 7\<rparr>]\<rparr>],
      ops_recover = True,
      tdr = \<lparr>timer_pending = True, work_pending = False, tdr_counter = 0, started = True\<rparr>\<rparr>"

text \<open>
  Three successive states of a client list in which every context is idle; the snapshot
  of the context is stale, as it is for a context that was never seen busy.
\<close>

definition ex_idle_cycles :: "amdxdna_client list list" where
  "ex_idle_cycles =
     [[\<lparr>hwctx_idr = [\<lparr>name = ''hwctx.1'', submitted = 5, completed = 5,
                       tdr_last_completed = 3\<rparr>]\<rparr>],
      [\<lparr>hwctx_idr = [\<lparr>name = ''hwctx.1'', submitted = 6, completed = 6,
                       tdr_last_completed = 3\<rparr>]\<rparr>, \<lparr>hwctx_idr = []\<rparr>],
      []]"

text \<open>
  The same device, except that the second context has completed one more job since its
  snapshot was taken; the third is frozen.
\<close>

definition ex_dev_progress :: amdxdna_dev where
  "ex_dev_progress =
     \<lparr>client_list =
        [\<lparr>hwctx_idr = [\<lparr>name = ''hwctx.1'', submitted = 5, completed = 5, tdr_last_completed = 3\<rparr>,
                       \<lparr>name = ''hwctx.2'', submitted = 10, completed = 8, tdr_last_completed = 7\<rparr>]\<rparr>,
         \<lparr>hwctx_idr = [\<lparr>name = ''hwctx.3'', submitted = 10, completed = 7, tdr_last_completed = 7\<rparr>]\<rparr>],
      ops_recover = True,
      tdr = \<lparr>timer_pending = True, work_pending = False, tdr_counter = 0, started = True\<rparr>\<rparr>"

text \<open>
  The example device before the watchdog has been started, with the two observation
  counters at zero.
\<close>

definition ex_sys_fresh :: tdr_sys where
  "ex_sys_fresh =
     \<lparr>sys_dev = ex_dev\<lparr>tdr := \<lparr>timer_pending = False, work_pending = False,
                                tdr_counter = 0, started = False\<rparr>\<rparr>,
      work_runs = 0, recover_calls = 0\<rparr>"

text \<open>The same device without a recovery operation.\<close>

definition ex_sys_norecover :: tdr_sys where
  "ex_sys_norecover = ex_sys_fresh\<lparr>sys_dev := (sys_dev ex_sys_fresh)\<lparr>ops_recover := False\<rparr>\<rparr>"

section \<open>The scan seen on the flat list of contexts\<close>

lemma scan_hwctx_idr_quiet:
  "\<forall>h\<in>set hs. \<not> hwctx_progressed h \<Longrightarrow>
   scan_hwctx_idr hs sc =
     (hs, sc\<lparr>ctx_cnt := ctx_cnt sc + of_nat (length hs),
            stop_cnt := stop_cnt sc + of_nat (length (filter hwctx_idle hs))\<rparr>)"
proof (induction hs arbitrary: sc)
  case Nil
  show ?case by simp
next
  case (Cons h hs)
  then have rest: "\<forall>x\<in>set hs. \<not> hwctx_progressed x" and h: "\<not> hwctx_progressed h"
    by simp_all
  show ?case
  proof (cases "submitted h = completed h")
    case True
    then show ?thesis
      using Cons.IH [OF rest] by (simp add: hwctx_idle_def algebra_simps)
  next
    case False
    with h have "tdr_last_completed h = completed h"
      by (simp add: hwctx_progressed_def)
    with False show ?thesis
      using Cons.IH [OF rest] by (simp add: hwctx_idle_def algebra_simps)
  qed
qed

lemma scan_hwctx_idr_hit:
  assumes "\<forall>h\<in>set pre. \<not> hwctx_progressed h" and "hwctx_progressed a"
  shows "scan_hwctx_idr (pre @ a # post) sc =
     (pre @ a\<lparr>tdr_last_completed := completed a\<rparr> # post,
      sc\<lparr>ctx_cnt := ctx_cnt sc + of_nat (length pre) + 1,
         stop_cnt := stop_cnt sc + of_nat (length (filter hwctx_idle pre)),
         active := True\<rparr>)"
  using assms
proof (induction pre arbitrary: sc)
  case Nil
  then show ?case by (simp add: hwctx_progressed_def)
next
  case (Cons h pre)
  then have rest: "\<forall>x\<in>set pre. \<not> hwctx_progressed x" and h: "\<not> hwctx_progressed h"
    by simp_all
  show ?case
  proof (cases "submitted h = completed h")
    case True
    then show ?thesis
      using Cons.IH [OF rest Cons.prems(2)] by (simp add: hwctx_idle_def algebra_simps)
  next
    case False
    with h have "tdr_last_completed h = completed h"
      by (simp add: hwctx_progressed_def)
    with False show ?thesis
      using Cons.IH [OF rest Cons.prems(2)] by (simp add: hwctx_idle_def algebra_simps)
  qed
qed

lemma scan_client_list_quiet:
  "\<forall>h\<in>set (all_hwctx cl). \<not> hwctx_progressed h \<Longrightarrow> \<not> active sc \<Longrightarrow>
   scan_client_list cl sc =
     (cl, sc\<lparr>ctx_cnt := ctx_cnt sc + of_nat (length (all_hwctx cl)),
            stop_cnt := stop_cnt sc + of_nat (length (filter hwctx_idle (all_hwctx cl)))\<rparr>)"
proof (induction cl arbitrary: sc)
  case Nil
  show ?case by (simp add: all_hwctx_def)
next
  case (Cons c cl)
  have here: "\<forall>h\<in>set (hwctx_idr c). \<not> hwctx_progressed h"
    and rest: "\<forall>h\<in>set (all_hwctx cl). \<not> hwctx_progressed h"
    using Cons.prems(1) by (simp_all add: all_hwctx_def)
  let ?sc1 = "sc\<lparr>ctx_cnt := ctx_cnt sc + of_nat (length (hwctx_idr c)),
            stop_cnt := stop_cnt sc + of_nat (length (filter hwctx_idle (hwctx_idr c)))\<rparr>"
  have inner: "scan_hwctx_idr (hwctx_idr c) sc = (hwctx_idr c, ?sc1)"
    by (rule scan_hwctx_idr_quiet [OF here])
  have na: "\<not> active ?sc1" using Cons.prems(2) by simp
  show ?case
    using Cons.IH [OF rest na] Cons.prems(2)
    by (simp add: inner all_hwctx_def algebra_simps)
qed

lemma first_progressed_split:
  assumes eq: "hs @ R = pre @ a # post"
    and quiet: "\<forall>h\<in>set pre. \<not> hwctx_progressed h"
    and a: "hwctx_progressed a"
  shows "(\<exists>post1. hs = pre @ a # post1 \<and> post = post1 @ R) \<or>
         (\<exists>pre2. pre = hs @ pre2 \<and> R = pre2 @ a # post \<and> (\<forall>h\<in>set hs. \<not> hwctx_progressed h))"
proof -
  from eq obtain us where
    "hs = pre @ us \<and> us @ R = a # post \<or> hs @ us = pre \<and> R = us @ a # post"
    by (auto simp: append_eq_append_conv2)
  then show ?thesis
  proof
    assume A: "hs = pre @ us \<and> us @ R = a # post"
    show ?thesis
    proof (cases us)
      case Nil
      with A quiet show ?thesis by auto
    next
      case (Cons u us')
      with A show ?thesis by auto
    qed
  next
    assume "hs @ us = pre \<and> R = us @ a # post"
    with quiet show ?thesis by auto
  qed
qed

lemma scan_client_list_hit:
  assumes "all_hwctx cl = pre @ a # post"
    and "\<forall>h\<in>set pre. \<not> hwctx_progressed h"
    and "hwctx_progressed a"
    and "\<not> active sc"
  shows "\<exists>cl'. scan_client_list cl sc =
           (cl', sc\<lparr>ctx_cnt := ctx_cnt sc + of_nat (length pre) + 1,
                   stop_cnt := stop_cnt sc + of_nat (length (filter hwctx_idle pre)),
                   active := True\<rparr>) \<and>
         all_hwctx cl' = pre @ a\<lparr>tdr_last_completed := completed a\<rparr> # post \<and>
         map (\<lambda>c. length (hwctx_idr c)) cl' = map (\<lambda>c. length (hwctx_idr c)) cl"
  using assms
proof (induction cl arbitrary: pre sc)
  case Nil
  then show ?case by (simp add: all_hwctx_def)
next
  case (Cons c cl)
  have eq: "hwctx_idr c @ all_hwctx cl = pre @ a # post"
    using Cons.prems(1) by (simp add: all_hwctx_def)
  from first_progressed_split [OF eq Cons.prems(2) Cons.prems(3)]
  show ?case
  proof (elim disjE exE conjE)
    fix post1
    assume hs: "hwctx_idr c = pre @ a # post1" and post: "post = post1 @ all_hwctx cl"
    have inner: "scan_hwctx_idr (pre @ a # post1) sc =
       (pre @ a\<lparr>tdr_last_completed := completed a\<rparr> # post1,
        sc\<lparr>ctx_cnt := ctx_cnt sc + of_nat (length pre) + 1,
           stop_cnt := stop_cnt sc + of_nat (length (filter hwctx_idle pre)),
           active := True\<rparr>)"
      by (rule scan_hwctx_idr_hit [OF Cons.prems(2) Cons.prems(3)])
    show ?thesis
      by (simp add: inner all_hwctx_def post hs)
  next
    fix pre2
    assume pre: "pre = hwctx_idr c @ pre2" and R: "all_hwctx cl = pre2 @ a # post"
      and here: "\<forall>h\<in>set (hwctx_idr c). \<not> hwctx_progressed h"
    let ?sc1 = "sc\<lparr>ctx_cnt := ctx_cnt sc + of_nat (length (hwctx_idr c)),
            stop_cnt := stop_cnt sc + of_nat (length (filter hwctx_idle (hwctx_idr c)))\<rparr>"
    have inner: "scan_hwctx_idr (hwctx_idr c) sc = (hwctx_idr c, ?sc1)"
      by (rule scan_hwctx_idr_quiet [OF here])
    have na: "\<not> active ?sc1" using Cons.prems(4) by simp
    have q2: "\<forall>h\<in>set pre2. \<not> hwctx_progressed h"
      using Cons.prems(2) pre by simp
    from Cons.IH [OF R q2 Cons.prems(3) na] obtain cl' where
      run: "scan_client_list cl ?sc1 =
           (cl', ?sc1\<lparr>ctx_cnt := ctx_cnt ?sc1 + of_nat (length pre2) + 1,
                   stop_cnt := stop_cnt ?sc1 + of_nat (length (filter hwctx_idle pre2)),
                   active := True\<rparr>)"
      and flat: "all_hwctx cl' = pre2 @ a\<lparr>tdr_last_completed := completed a\<rparr> # post"
      and lens: "map (\<lambda>c. length (hwctx_idr c)) cl' = map (\<lambda>c. length (hwctx_idr c)) cl"
      by blast
    show ?thesis
      using Cons.prems(4) flat lens
      by (simp add: inner run all_hwctx_def pre algebra_simps)
  qed
qed

lemma count_neq_iff:
  assumes "length xs < 2 ^ 32"
  shows "((of_nat (length xs) :: 32 word) \<noteq> of_nat (length (filter P xs))) \<longleftrightarrow> (\<exists>x\<in>set xs. \<not> P x)"
proof -
  have le: "length (filter P xs) \<le> length xs" by (rule length_filter_le)
  from le assms have lt: "length (filter P xs) < 2 ^ 32" by (rule le_less_trans)
  have "((of_nat (length xs) :: 32 word) = of_nat (length (filter P xs))) \<longleftrightarrow>
        length xs = length (filter P xs)"
    using assms lt by (simp add: word_of_nat_eq_iff take_bit_nat_eq_self)
  also have "\<dots> \<longleftrightarrow> (\<forall>x\<in>set xs. P x)"
  proof
    assume eq: "length xs = length (filter P xs)"
    show "\<forall>x\<in>set xs. P x"
    proof (rule ccontr)
      assume "\<not> (\<forall>x\<in>set xs. P x)"
      then obtain x where "x \<in> set xs" "\<not> P x" by blast
      then have "length (filter P xs) < length xs" by (rule length_filter_less)
      with eq show False by simp
    qed
  next
    assume "\<forall>x\<in>set xs. P x"
    then show "length xs = length (filter P xs)" by simp
  qed
  finally show ?thesis by blast
qed

lemma tdr_work_quiet:
  assumes "\<forall>h\<in>set (all_hwctx (client_list xdna)). \<not> hwctx_progressed h"
  shows "amdxdna_tdr_work xdna =
     (if (of_nat (length (all_hwctx (client_list xdna))) :: 32 word) \<noteq>
           of_nat (length (filter hwctx_idle (all_hwctx (client_list xdna))))
      then (if ops_recover xdna
            then Inr (xdna\<lparr>tdr := (tdr xdna)\<lparr>tdr_counter := tdr_counter (tdr xdna) + 1\<rparr>\<rparr>, [Recover])
            else Inl NullCall)
      else Inr (xdna, []))"
proof -
  have na: "\<not> active tdr_scan_init" by (simp add: tdr_scan_init_def)
  show ?thesis
    unfolding amdxdna_tdr_work_def scan_client_list_quiet [OF assms na]
    by (simp add: tdr_scan_init_def)
qed

lemma tdr_work_hit:
  assumes "all_hwctx (client_list xdna) = pre @ a # post"
    and "\<forall>h\<in>set pre. \<not> hwctx_progressed h"
    and "hwctx_progressed a"
  shows "\<exists>cl'. amdxdna_tdr_work xdna = Inr (xdna\<lparr>client_list := cl'\<rparr>, []) \<and>
           all_hwctx cl' = pre @ a\<lparr>tdr_last_completed := completed a\<rparr> # post \<and>
           map (\<lambda>c. length (hwctx_idr c)) cl' = map (\<lambda>c. length (hwctx_idr c)) (client_list xdna)"
proof -
  have na: "\<not> active tdr_scan_init" by (simp add: tdr_scan_init_def)
  from scan_client_list_hit [OF assms na] obtain cl' where
    run: "scan_client_list (client_list xdna) tdr_scan_init =
           (cl', tdr_scan_init\<lparr>ctx_cnt := ctx_cnt tdr_scan_init + of_nat (length pre) + 1,
                   stop_cnt := stop_cnt tdr_scan_init + of_nat (length (filter hwctx_idle pre)),
                   active := True\<rparr>)"
    and flat: "all_hwctx cl' = pre @ a\<lparr>tdr_last_completed := completed a\<rparr> # post"
    and lens: "map (\<lambda>c. length (hwctx_idr c)) cl' = map (\<lambda>c. length (hwctx_idr c)) (client_list xdna)"
    by blast
  have "amdxdna_tdr_work xdna = Inr (xdna\<lparr>client_list := cl'\<rparr>, [])"
    unfolding amdxdna_tdr_work_def run by simp
  with flat lens show ?thesis by blast
qed

lemma first_progressed_exists:
  assumes "\<exists>h\<in>set hs. hwctx_progressed h"
  shows "\<exists>pre a post. hs = pre @ a # post \<and> (\<forall>h\<in>set pre. \<not> hwctx_progressed h) \<and> hwctx_progressed a"
proof -
  from assms obtain pre a post where "hs = pre @ a # post" "hwctx_progressed a"
    "\<forall>h\<in>set pre. \<not> hwctx_progressed h"
    by (auto simp: split_list_first_prop_iff)
  then show ?thesis by blast
qed

lemma scan_state_quiet:
  assumes "\<forall>h\<in>set (all_hwctx cl). \<not> hwctx_progressed h"
  shows "snd (scan_client_list cl tdr_scan_init) =
     \<lparr>active = False,
      stop_cnt = of_nat (length (filter hwctx_idle (all_hwctx cl))),
      ctx_cnt = of_nat (length (all_hwctx cl))\<rparr>"
proof -
  have na: "\<not> active tdr_scan_init" by (simp add: tdr_scan_init_def)
  show ?thesis
    unfolding scan_client_list_quiet [OF assms na] by (simp add: tdr_scan_init_def)
qed

lemma scan_state_hit:
  assumes "all_hwctx cl = pre @ a # post"
    and "\<forall>h\<in>set pre. \<not> hwctx_progressed h"
    and "hwctx_progressed a"
  shows "snd (scan_client_list cl tdr_scan_init) =
     \<lparr>active = True,
      stop_cnt = of_nat (length (filter hwctx_idle pre)),
      ctx_cnt = of_nat (length pre) + 1\<rparr>"
proof -
  have na: "\<not> active tdr_scan_init" by (simp add: tdr_scan_init_def)
  from scan_client_list_hit [OF assms na] show ?thesis
    by (auto simp: tdr_scan_init_def)
qed

section \<open>The concrete scenario\<close>

text \<open>
  C7. Three contexts with (submitted, completed) = (5,5), (10,7), (10,7), the snapshots of
  the second and third both 7, in any grouping into clients and with \<open>recover\<close> present:
  one run of the work item leaves the loops with \<open>ctx_cnt = 3\<close>, \<open>stop_cnt = 1\<close> and
  \<open>active\<close> false, calls \<open>recover\<close> exactly once, and increments \<open>tdr_counter\<close> by one
  (the C \<open>++\<close> on the 32-bit counter); nothing else in the device changes.
\<close>

theorem tdr_work_three_contexts:
  assumes flat: "all_hwctx (client_list xdna) =
      [\<lparr>name = n1, submitted = 5, completed = 5, tdr_last_completed = l1\<rparr>,
       \<lparr>name = n2, submitted = 10, completed = 7, tdr_last_completed = 7\<rparr>,
       \<lparr>name = n3, submitted = 10, completed = 7, tdr_last_completed = 7\<rparr>]"
    and rec: "ops_recover xdna"
  shows "snd (scan_client_list (client_list xdna) tdr_scan_init) =
           \<lparr>active = False, stop_cnt = 1, ctx_cnt = 3\<rparr> \<and>
         amdxdna_tdr_work xdna =
           Inr (xdna\<lparr>tdr := (tdr xdna)\<lparr>tdr_counter := tdr_counter (tdr xdna) + 1\<rparr>\<rparr>, [Recover])"
proof -
  have quiet: "\<forall>h\<in>set (all_hwctx (client_list xdna)). \<not> hwctx_progressed h"
    by (simp add: flat hwctx_progressed_def)
  have st: "snd (scan_client_list (client_list xdna) tdr_scan_init) =
           \<lparr>active = False, stop_cnt = 1, ctx_cnt = 3\<rparr>"
    unfolding scan_state_quiet [OF quiet] by (simp add: flat hwctx_idle_def)
  have "amdxdna_tdr_work xdna =
           Inr (xdna\<lparr>tdr := (tdr xdna)\<lparr>tdr_counter := tdr_counter (tdr xdna) + 1\<rparr>\<rparr>, [Recover])"
    unfolding tdr_work_quiet [OF quiet] using rec by (simp add: flat hwctx_idle_def)
  with st show ?thesis by simp
qed

theorem tdr_work_three_contexts_witness:
  "all_hwctx (client_list ex_dev) =
      [\<lparr>name = ''hwctx.1'', submitted = 5, completed = 5, tdr_last_completed = 3\<rparr>,
       \<lparr>name = ''hwctx.2'', submitted = 10, completed = 7, tdr_last_completed = 7\<rparr>,
       \<lparr>name = ''hwctx.3'', submitted = 10, completed = 7, tdr_last_completed = 7\<rparr>] \<and>
   ops_recover ex_dev \<and>
   snd (scan_client_list (client_list ex_dev) tdr_scan_init) =
      \<lparr>active = False, stop_cnt = 1, ctx_cnt = 3\<rparr> \<and>
   amdxdna_tdr_work ex_dev =
      Inr (ex_dev\<lparr>tdr := (tdr ex_dev)\<lparr>tdr_counter := 1\<rparr>\<rparr>, [Recover])"
proof -
  have flat: "all_hwctx (client_list ex_dev) =
      [\<lparr>name = ''hwctx.1'', submitted = 5, completed = 5, tdr_last_completed = 3\<rparr>,
       \<lparr>name = ''hwctx.2'', submitted = 10, completed = 7, tdr_last_completed = 7\<rparr>,
       \<lparr>name = ''hwctx.3'', submitted = 10, completed = 7, tdr_last_completed = 7\<rparr>]"
    by (simp add: ex_dev_def all_hwctx_def)
  have rec: "ops_recover ex_dev" by (simp add: ex_dev_def)
  have cnt: "tdr_counter (tdr ex_dev) + 1 = 1" by (simp add: ex_dev_def)
  from tdr_work_three_contexts [OF flat rec] flat rec cnt show ?thesis by simp
qed

lemma tdr_work_all_idle:
  assumes "\<forall>h\<in>set (all_hwctx (client_list xdna)). submitted h = completed h"
  shows "amdxdna_tdr_work xdna = Inr (xdna, [])"
proof -
  have quiet: "\<forall>h\<in>set (all_hwctx (client_list xdna)). \<not> hwctx_progressed h"
    using assms by (simp add: hwctx_progressed_def)
  have "filter hwctx_idle (all_hwctx (client_list xdna)) = all_hwctx (client_list xdna)"
    using assms by (simp add: hwctx_idle_def)
  then show ?thesis
    unfolding tdr_work_quiet [OF quiet] by simp
qed

section \<open>Idle devices\<close>

text \<open>
  C5. A sequence of scan cycles of any length, in each of which every context has
  \<open>submitted = completed\<close>: every run returns, \<open>recover\<close> is never called, and the
  watchdog object, \<open>tdr_counter\<close> included, is what it was before the first cycle; a
  counter that was 0 is still 0.
\<close>

theorem tdr_cycles_idle_never_recover:
  assumes "\<forall>clients\<in>set cycles. \<forall>h\<in>set (all_hwctx clients). submitted h = completed h"
  shows "\<exists>xdna'. tdr_cycles cycles xdna = Inr (xdna', []) \<and> tdr xdna' = tdr xdna \<and>
           (tdr_counter (tdr xdna) = 0 \<longrightarrow> tdr_counter (tdr xdna') = 0)"
  using assms
proof (induction cycles arbitrary: xdna)
  case Nil
  show ?case by simp
next
  case (Cons clients later)
  have idle: "\<forall>h\<in>set (all_hwctx (client_list (xdna\<lparr>client_list := clients\<rparr>))).
                submitted h = completed h"
    using Cons.prems by simp
  have later: "\<forall>clients\<in>set later. \<forall>h\<in>set (all_hwctx clients). submitted h = completed h"
    using Cons.prems by simp
  from Cons.IH [OF later, of "xdna\<lparr>client_list := clients\<rparr>"] obtain xdna' where
    "tdr_cycles later (xdna\<lparr>client_list := clients\<rparr>) = Inr (xdna', [])"
    "tdr xdna' = tdr xdna"
    by auto
  then show ?case
    by (simp add: tdr_work_all_idle [OF idle])
qed

theorem tdr_cycles_idle_never_recover_witness:
  "tdr_counter (tdr ex_dev) = 0 \<and>
   (\<exists>xdna'. tdr_cycles ex_idle_cycles ex_dev = Inr (xdna', []) \<and>
             tdr xdna' = tdr ex_dev \<and> tdr_counter (tdr xdna') = 0)"
proof -
  have idle: "\<forall>clients\<in>set ex_idle_cycles.
      \<forall>h\<in>set (all_hwctx clients). submitted h = completed h"
    by (simp add: ex_idle_cycles_def all_hwctx_def)
  have zero: "tdr_counter (tdr ex_dev) = 0" by (simp add: ex_dev_def)
  from tdr_cycles_idle_never_recover [OF idle, of ex_dev] zero show ?thesis
    by auto
qed

lemma tdr_work_stuck:
  assumes rec: "ops_recover xdna"
    and len: "length (all_hwctx (client_list xdna)) < 2 ^ 31"
    and busy: "\<exists>h\<in>set (all_hwctx (client_list xdna)). submitted h \<noteq> completed h"
    and quiet: "\<forall>h\<in>set (all_hwctx (client_list xdna)). \<not> hwctx_progressed h"
  shows "amdxdna_tdr_work xdna =
           Inr (xdna\<lparr>tdr := (tdr xdna)\<lparr>tdr_counter := tdr_counter (tdr xdna) + 1\<rparr>\<rparr>, [Recover])"
proof -
  have "(2::nat) ^ 31 \<le> 2 ^ 32" by simp
  with len have len32: "length (all_hwctx (client_list xdna)) < 2 ^ 32"
    by (rule less_le_trans)
  have "\<exists>h\<in>set (all_hwctx (client_list xdna)). \<not> hwctx_idle h"
    using busy by (simp add: hwctx_idle_def)
  then have "(of_nat (length (all_hwctx (client_list xdna))) :: 32 word) \<noteq>
           of_nat (length (filter hwctx_idle (all_hwctx (client_list xdna))))"
    by (simp only: count_neq_iff [OF len32])
  then show ?thesis
    unfolding tdr_work_quiet [OF quiet] using rec by simp
qed

section \<open>Stuck devices\<close>

text \<open>
  C3. A device with \<open>recover\<close> present and fewer than \<open>2^31\<close> contexts (so that the
  \<open>int\<close> counters of the scan do not overflow), in which some context has
  \<open>submitted > completed\<close> with \<open>completed\<close> equal to its snapshot, and no busy context
  has a \<open>completed\<close> different from its snapshot. The run of the work item calls
  \<open>recover\<close> exactly once and increments \<open>tdr_counter\<close> by one (the C \<open>++\<close> on the
  32-bit counter), changing nothing else. With the contexts frozen, the next run does the
  same again: one call and one increment per cycle.
\<close>

theorem tdr_work_stuck_recovers_each_cycle:
  assumes "ops_recover xdna"
    and "length (all_hwctx (client_list xdna)) < 2 ^ 31"
    and "\<exists>h\<in>set (all_hwctx (client_list xdna)).
           completed h < submitted h \<and> tdr_last_completed h = completed h"
    and "\<forall>h\<in>set (all_hwctx (client_list xdna)).
           submitted h \<noteq> completed h \<longrightarrow> tdr_last_completed h = completed h"
  shows "amdxdna_tdr_work xdna =
           Inr (xdna\<lparr>tdr := (tdr xdna)\<lparr>tdr_counter := tdr_counter (tdr xdna) + 1\<rparr>\<rparr>,
                [Recover]) \<and>
         amdxdna_tdr_work (xdna\<lparr>tdr := (tdr xdna)\<lparr>tdr_counter := tdr_counter (tdr xdna) + 1\<rparr>\<rparr>) =
           Inr (xdna\<lparr>tdr := (tdr xdna)\<lparr>tdr_counter := tdr_counter (tdr xdna) + 1 + 1\<rparr>\<rparr>,
                [Recover])"
proof -
  let ?xdna1 = "xdna\<lparr>tdr := (tdr xdna)\<lparr>tdr_counter := tdr_counter (tdr xdna) + 1\<rparr>\<rparr>"
  have busy: "\<exists>h\<in>set (all_hwctx (client_list xdna)). submitted h \<noteq> completed h"
    using assms(3) by (metis order_less_irrefl)
  have quiet: "\<forall>h\<in>set (all_hwctx (client_list xdna)). \<not> hwctx_progressed h"
    using assms(4) by (auto simp: hwctx_progressed_def)
  have first: "amdxdna_tdr_work xdna = Inr (?xdna1, [Recover])"
    by (rule tdr_work_stuck [OF assms(1) assms(2) busy quiet])
  have rec1: "ops_recover ?xdna1" using assms(1) by simp
  have len1: "length (all_hwctx (client_list ?xdna1)) < 2 ^ 31" using assms(2) by simp
  have busy1: "\<exists>h\<in>set (all_hwctx (client_list ?xdna1)). submitted h \<noteq> completed h"
    using busy by simp
  have quiet1: "\<forall>h\<in>set (all_hwctx (client_list ?xdna1)). \<not> hwctx_progressed h"
    using quiet by simp
  have "amdxdna_tdr_work ?xdna1 =
          Inr (?xdna1\<lparr>tdr := (tdr ?xdna1)\<lparr>tdr_counter := tdr_counter (tdr ?xdna1) + 1\<rparr>\<rparr>, [Recover])"
    by (rule tdr_work_stuck [OF rec1 len1 busy1 quiet1])
  then have second: "amdxdna_tdr_work ?xdna1 =
           Inr (xdna\<lparr>tdr := (tdr xdna)\<lparr>tdr_counter := tdr_counter (tdr xdna) + 1 + 1\<rparr>\<rparr>,
                [Recover])"
    by simp
  from first second show ?thesis by simp
qed

theorem tdr_work_stuck_recovers_each_cycle_witness:
  "amdxdna_tdr_work ex_dev = Inr (ex_dev\<lparr>tdr := (tdr ex_dev)\<lparr>tdr_counter := 1\<rparr>\<rparr>, [Recover]) \<and>
   amdxdna_tdr_work (ex_dev\<lparr>tdr := (tdr ex_dev)\<lparr>tdr_counter := 1\<rparr>\<rparr>) =
     Inr (ex_dev\<lparr>tdr := (tdr ex_dev)\<lparr>tdr_counter := 2\<rparr>\<rparr>, [Recover])"
proof -
  have rec: "ops_recover ex_dev" by (simp add: ex_dev_def)
  have len: "length (all_hwctx (client_list ex_dev)) < 2 ^ 31"
    by (simp add: ex_dev_def all_hwctx_def)
  have stuck: "\<exists>h\<in>set (all_hwctx (client_list ex_dev)).
           completed h < submitted h \<and> tdr_last_completed h = completed h"
    by (simp add: ex_dev_def all_hwctx_def)
  have quiet: "\<forall>h\<in>set (all_hwctx (client_list ex_dev)).
           submitted h \<noteq> completed h \<longrightarrow> tdr_last_completed h = completed h"
    by (simp add: ex_dev_def all_hwctx_def)
  have cnt: "tdr_counter (tdr ex_dev) + 1 = 1" "tdr_counter (tdr ex_dev) + 1 + 1 = 2"
    by (simp_all add: ex_dev_def)
  from tdr_work_stuck_recovers_each_cycle [OF rec len stuck quiet] show ?thesis
    by (simp add: cnt)
qed

lemma scan_active_iff:
  "active (snd (scan_client_list cl tdr_scan_init)) \<longleftrightarrow>
     (\<exists>h\<in>set (all_hwctx cl). hwctx_progressed h)"
proof (cases "\<exists>h\<in>set (all_hwctx cl). hwctx_progressed h")
  case True
  from first_progressed_exists [OF True] obtain pre a post where
    "all_hwctx cl = pre @ a # post" "\<forall>h\<in>set pre. \<not> hwctx_progressed h" "hwctx_progressed a"
    by blast
  then have "active (snd (scan_client_list cl tdr_scan_init))"
    by (simp add: scan_state_hit)
  with True show ?thesis by simp
next
  case False
  then have "\<forall>h\<in>set (all_hwctx cl). \<not> hwctx_progressed h" by simp
  then have "\<not> active (snd (scan_client_list cl tdr_scan_init))"
    by (simp add: scan_state_quiet)
  with False show ?thesis by simp
qed

lemma scan_counts_differ_iff:
  assumes len: "length (all_hwctx cl) < 2 ^ 31"
  shows "ctx_cnt (snd (scan_client_list cl tdr_scan_init)) \<noteq>
           stop_cnt (snd (scan_client_list cl tdr_scan_init)) \<longleftrightarrow>
         (\<exists>h\<in>set (all_hwctx cl). \<not> hwctx_idle h)"
proof (cases "\<exists>h\<in>set (all_hwctx cl). hwctx_progressed h")
  case True
  from first_progressed_exists [OF True] obtain pre a post where
    flat: "all_hwctx cl = pre @ a # post" and quiet: "\<forall>h\<in>set pre. \<not> hwctx_progressed h"
    and a: "hwctx_progressed a"
    by blast
  have st: "snd (scan_client_list cl tdr_scan_init) =
     \<lparr>active = True, stop_cnt = of_nat (length (filter hwctx_idle pre)),
      ctx_cnt = of_nat (length pre) + 1\<rparr>"
    by (rule scan_state_hit [OF flat quiet a])
  have sl: "Suc (length pre) \<le> length (all_hwctx cl)" by (simp add: flat)
  from sl len have "Suc (length pre) < 2 ^ 31" by (rule le_less_trans)
  moreover have "(2::nat) ^ 31 \<le> 2 ^ 32" by simp
  ultimately have b1: "Suc (length pre) < 2 ^ 32" by (rule less_le_trans)
  have le: "length (filter hwctx_idle pre) \<le> length pre" by (rule length_filter_le)
  from le have lt: "length (filter hwctx_idle pre) < Suc (length pre)"
    by (rule le_imp_less_Suc)
  from lt b1 have b2: "length (filter hwctx_idle pre) < 2 ^ 32" by (rule less_trans)
  have "(of_nat (Suc (length pre)) :: 32 word) = of_nat (length (filter hwctx_idle pre)) \<longleftrightarrow>
          Suc (length pre) = length (filter hwctx_idle pre)"
    using b1 b2 by (simp only: word_of_nat_eq_iff take_bit_nat_eq_self len_bit0 len_num1 mult_1_right)
       (simp add: take_bit_nat_eq_self)
  with lt have "(of_nat (Suc (length pre)) :: 32 word) \<noteq> of_nat (length (filter hwctx_idle pre))"
    by simp
  then have "ctx_cnt (snd (scan_client_list cl tdr_scan_init)) \<noteq>
           stop_cnt (snd (scan_client_list cl tdr_scan_init))"
    by (simp add: st add.commute)
  moreover have "\<not> hwctx_idle a"
    using a by (simp add: hwctx_progressed_def hwctx_idle_def)
  then have "\<exists>h\<in>set (all_hwctx cl). \<not> hwctx_idle h" by (auto simp: flat)
  ultimately show ?thesis by simp
next
  case False
  then have quiet: "\<forall>h\<in>set (all_hwctx cl). \<not> hwctx_progressed h" by simp
  have "(2::nat) ^ 31 \<le> 2 ^ 32" by simp
  with len have len32: "length (all_hwctx cl) < 2 ^ 32" by (rule less_le_trans)
  show ?thesis
    by (simp add: scan_state_quiet [OF quiet] count_neq_iff [OF len32])
qed

lemma tdr_work_decision:
  assumes "ops_recover xdna"
  shows "amdxdna_tdr_work xdna =
     (if ctx_cnt (snd (scan_client_list (client_list xdna) tdr_scan_init)) \<noteq>
           stop_cnt (snd (scan_client_list (client_list xdna) tdr_scan_init)) \<and>
         \<not> active (snd (scan_client_list (client_list xdna) tdr_scan_init))
      then Inr (xdna\<lparr>client_list := fst (scan_client_list (client_list xdna) tdr_scan_init),
                     tdr := (tdr xdna)\<lparr>tdr_counter := tdr_counter (tdr xdna) + 1\<rparr>\<rparr>, [Recover])
      else Inr (xdna\<lparr>client_list := fst (scan_client_list (client_list xdna) tdr_scan_init)\<rparr>, []))"
  using assms by (simp add: amdxdna_tdr_work_def case_prod_unfold Let_def)

section \<open>The decision of one scan cycle\<close>

text \<open>
  C1. On a device with \<open>recover\<close> present, every run of the work item returns, and it
  calls \<open>recover\<close> (once) if and only if the loops end with \<open>ctx_cnt \<noteq> stop_cnt\<close> and
  \<open>active\<close> false. \<open>active\<close> is set exactly when the scan met a context with
  outstanding work whose \<open>completed\<close> differs from its snapshot (an idle context is
  never compared with its snapshot). With fewer than \<open>2^31\<close> contexts, so that the \<open>int\<close>
  counters do not overflow, \<open>ctx_cnt \<noteq> stop_cnt\<close> says that some context has outstanding
  work. When \<open>recover\<close> is not called, no call is made at all and the watchdog object,
  \<open>tdr_counter\<close> included, is unchanged; when it is called, the counter has been
  incremented.
\<close>

theorem tdr_work_recover_iff:
  assumes "ops_recover xdna"
  shows "\<exists>xdna' evs. amdxdna_tdr_work xdna = Inr (xdna', evs) \<and>
     (evs = [Recover] \<longleftrightarrow>
        ctx_cnt (snd (scan_client_list (client_list xdna) tdr_scan_init)) \<noteq>
          stop_cnt (snd (scan_client_list (client_list xdna) tdr_scan_init)) \<and>
        \<not> active (snd (scan_client_list (client_list xdna) tdr_scan_init))) \<and>
     (evs = [Recover] \<longrightarrow> tdr xdna' = (tdr xdna)\<lparr>tdr_counter := tdr_counter (tdr xdna) + 1\<rparr>) \<and>
     (evs \<noteq> [Recover] \<longrightarrow> evs = [] \<and> tdr xdna' = tdr xdna) \<and>
     (active (snd (scan_client_list (client_list xdna) tdr_scan_init)) \<longleftrightarrow>
        (\<exists>h\<in>set (all_hwctx (client_list xdna)).
           submitted h \<noteq> completed h \<and> tdr_last_completed h \<noteq> completed h)) \<and>
     (length (all_hwctx (client_list xdna)) < 2 ^ 31 \<longrightarrow>
        (ctx_cnt (snd (scan_client_list (client_list xdna) tdr_scan_init)) \<noteq>
           stop_cnt (snd (scan_client_list (client_list xdna) tdr_scan_init)) \<longleftrightarrow>
         (\<exists>h\<in>set (all_hwctx (client_list xdna)). submitted h \<noteq> completed h)))"
proof -
  let ?sc = "snd (scan_client_list (client_list xdna) tdr_scan_init)"
  have act: "active ?sc \<longleftrightarrow>
        (\<exists>h\<in>set (all_hwctx (client_list xdna)).
           submitted h \<noteq> completed h \<and> tdr_last_completed h \<noteq> completed h)"
    using scan_active_iff [of "client_list xdna"] by (simp add: hwctx_progressed_def)
  have cnt: "length (all_hwctx (client_list xdna)) < 2 ^ 31 \<longrightarrow>
        (ctx_cnt ?sc \<noteq> stop_cnt ?sc \<longleftrightarrow>
         (\<exists>h\<in>set (all_hwctx (client_list xdna)). submitted h \<noteq> completed h))"
    using scan_counts_differ_iff [of "client_list xdna"] by (simp add: hwctx_idle_def)
  show ?thesis
  proof (cases "ctx_cnt ?sc \<noteq> stop_cnt ?sc \<and> \<not> active ?sc")
    case True
    then have "amdxdna_tdr_work xdna =
        Inr (xdna\<lparr>client_list := fst (scan_client_list (client_list xdna) tdr_scan_init),
                  tdr := (tdr xdna)\<lparr>tdr_counter := tdr_counter (tdr xdna) + 1\<rparr>\<rparr>, [Recover])"
      by (simp add: tdr_work_decision [OF assms])
    with True act cnt show ?thesis by simp
  next
    case False
    then have "amdxdna_tdr_work xdna =
        Inr (xdna\<lparr>client_list := fst (scan_client_list (client_list xdna) tdr_scan_init)\<rparr>, [])"
      by (simp add: tdr_work_decision [OF assms])
    with False act cnt show ?thesis by simp
  qed
qed

theorem tdr_work_recover_iff_witness:
  "(\<exists>xdna'. amdxdna_tdr_work ex_dev = Inr (xdna', [Recover]) \<and>
             tdr_counter (tdr xdna') = 1) \<and>
   snd (scan_client_list (client_list ex_dev) tdr_scan_init) =
     \<lparr>active = False, stop_cnt = 1, ctx_cnt = 3\<rparr> \<and>
   snd (scan_client_list (client_list ex_dev_progress) tdr_scan_init) =
     \<lparr>active = True, stop_cnt = 1, ctx_cnt = 2\<rparr> \<and>
   (\<exists>xdna'. amdxdna_tdr_work ex_dev_progress = Inr (xdna', []) \<and>
             tdr xdna' = tdr ex_dev_progress)"
proof -
  have rec: "ops_recover ex_dev" "ops_recover ex_dev_progress"
    by (simp_all add: ex_dev_def ex_dev_progress_def)
  have st: "snd (scan_client_list (client_list ex_dev) tdr_scan_init) =
     \<lparr>active = False, stop_cnt = 1, ctx_cnt = 3\<rparr>"
    by (simp add: ex_dev_def tdr_scan_init_def)
  have stp: "snd (scan_client_list (client_list ex_dev_progress) tdr_scan_init) =
     \<lparr>active = True, stop_cnt = 1, ctx_cnt = 2\<rparr>"
    by (simp add: ex_dev_progress_def tdr_scan_init_def)
  have c: "tdr_counter (tdr ex_dev) + 1 = 1" by (simp add: ex_dev_def)
  from tdr_work_recover_iff [OF rec(1)] obtain xdna' evs where
    w: "amdxdna_tdr_work ex_dev = Inr (xdna', evs)" and "evs = [Recover]"
      and "evs = [Recover] \<longrightarrow> tdr xdna' = (tdr ex_dev)\<lparr>tdr_counter := tdr_counter (tdr ex_dev) + 1\<rparr>"
    unfolding st by auto
  then have one: "\<exists>xdna'. amdxdna_tdr_work ex_dev = Inr (xdna', [Recover]) \<and>
             tdr_counter (tdr xdna') = 1"
    by (auto simp: c)
  from tdr_work_recover_iff [OF rec(2)] obtain xdna'' evs' where
    "amdxdna_tdr_work ex_dev_progress = Inr (xdna'', evs')" "evs' \<noteq> [Recover]"
      "evs' \<noteq> [Recover] \<longrightarrow> evs' = [] \<and> tdr xdna'' = tdr ex_dev_progress"
    unfolding stp by auto
  then have two: "\<exists>xdna'. amdxdna_tdr_work ex_dev_progress = Inr (xdna', []) \<and>
             tdr xdna' = tdr ex_dev_progress"
    by auto
  from one st stp two show ?thesis by simp
qed

lemma first_progressed_takeWhile:
  assumes "\<forall>h\<in>set pre. \<not> hwctx_progressed h" and "hwctx_progressed a"
  shows "takeWhile (\<lambda>h. \<not> hwctx_progressed h) (pre @ a # post) = pre"
    and "dropWhile (\<lambda>h. \<not> hwctx_progressed h) (pre @ a # post) = a # post"
  using assms by (simp_all add: takeWhile_append2 dropWhile_append2)

section \<open>What a scan writes\<close>

text \<open>
  C8. On a device with \<open>recover\<close> present the run of the work item returns, and the
  contexts it leaves are the contexts it found, in the same clients and the same order,
  except for at most one: if some context has outstanding work and a \<open>completed\<close>
  different from its snapshot, the first such context in scan order has its snapshot set
  to \<open>completed\<close>; all contexts before it (idle or frozen) and all contexts after it
  are unchanged. If there is no such context, nothing is written.
\<close>

theorem tdr_work_writes_first_progressed_only:
  assumes "ops_recover xdna"
  shows "\<exists>xdna' evs. amdxdna_tdr_work xdna = Inr (xdna', evs) \<and>
     map (\<lambda>c. length (hwctx_idr c)) (client_list xdna') =
       map (\<lambda>c. length (hwctx_idr c)) (client_list xdna) \<and>
     all_hwctx (client_list xdna') =
       (case dropWhile (\<lambda>h. \<not> hwctx_progressed h) (all_hwctx (client_list xdna)) of
          [] \<Rightarrow> all_hwctx (client_list xdna)
        | a # post \<Rightarrow>
            takeWhile (\<lambda>h. \<not> hwctx_progressed h) (all_hwctx (client_list xdna)) @
            a\<lparr>tdr_last_completed := completed a\<rparr> # post)"
proof (cases "\<exists>h\<in>set (all_hwctx (client_list xdna)). hwctx_progressed h")
  case True
  from first_progressed_exists [OF True] obtain pre a post where
    flat: "all_hwctx (client_list xdna) = pre @ a # post"
    and quiet: "\<forall>h\<in>set pre. \<not> hwctx_progressed h"
    and a: "hwctx_progressed a"
    by blast
  from tdr_work_hit [OF flat quiet a] obtain cl' where
    "amdxdna_tdr_work xdna = Inr (xdna\<lparr>client_list := cl'\<rparr>, [])"
    "all_hwctx cl' = pre @ a\<lparr>tdr_last_completed := completed a\<rparr> # post"
    "map (\<lambda>c. length (hwctx_idr c)) cl' = map (\<lambda>c. length (hwctx_idr c)) (client_list xdna)"
    by blast
  then show ?thesis
    by (simp add: flat first_progressed_takeWhile [OF quiet a])
next
  case False
  then have quiet: "\<forall>h\<in>set (all_hwctx (client_list xdna)). \<not> hwctx_progressed h" by simp
  then have dw: "dropWhile (\<lambda>h. \<not> hwctx_progressed h) (all_hwctx (client_list xdna)) = []"
    by simp
  show ?thesis
    unfolding tdr_work_quiet [OF quiet] dw using assms by simp
qed

theorem tdr_work_writes_first_progressed_only_witness:
  "\<exists>xdna'. amdxdna_tdr_work ex_dev_progress = Inr (xdna', []) \<and>
     map (\<lambda>c. length (hwctx_idr c)) (client_list xdna') = [2, 1] \<and>
     all_hwctx (client_list xdna') =
       [\<lparr>name = ''hwctx.1'', submitted = 5, completed = 5, tdr_last_completed = 3\<rparr>,
        \<lparr>name = ''hwctx.2'', submitted = 10, completed = 8, tdr_last_completed = 8\<rparr>,
        \<lparr>name = ''hwctx.3'', submitted = 10, completed = 7, tdr_last_completed = 7\<rparr>]"
proof -
  have rec: "ops_recover ex_dev_progress" by (simp add: ex_dev_progress_def)
  have run: "amdxdna_tdr_work ex_dev_progress =
     Inr (ex_dev_progress\<lparr>client_list := fst (scan_client_list (client_list ex_dev_progress) tdr_scan_init)\<rparr>, [])"
    by (simp add: amdxdna_tdr_work_def ex_dev_progress_def tdr_scan_init_def)
  have flat: "all_hwctx (client_list ex_dev_progress) =
       [\<lparr>name = ''hwctx.1'', submitted = 5, completed = 5, tdr_last_completed = 3\<rparr>,
        \<lparr>name = ''hwctx.2'', submitted = 10, completed = 8, tdr_last_completed = 7\<rparr>,
        \<lparr>name = ''hwctx.3'', submitted = 10, completed = 7, tdr_last_completed = 7\<rparr>]"
    by (simp add: ex_dev_progress_def all_hwctx_def)
  have lens: "map (\<lambda>c. length (hwctx_idr c)) (client_list ex_dev_progress) = [2, 1]"
    by (simp add: ex_dev_progress_def)
  from tdr_work_writes_first_progressed_only [OF rec] show ?thesis
    unfolding run flat lens by (simp add: hwctx_progressed_def)
qed

lemma later_hwctx_untouched:
  assumes flat: "hs = pre @ A # mid @ B # post"
    and A: "hwctx_progressed A"
    and split: "hs = pre0 @ a0 # post0"
    and quiet0: "\<forall>h\<in>set pre0. \<not> hwctx_progressed h"
  shows "(pre0 @ a0' # post0) ! (length pre + 1 + length mid) = B"
proof -
  have le: "length pre0 \<le> length pre"
  proof (rule ccontr)
    assume "\<not> length pre0 \<le> length pre"
    then have lt: "length pre < length pre0" by simp
    have "hs ! length pre = A" by (simp add: flat)
    moreover have "hs ! length pre = pre0 ! length pre"
      using lt by (simp add: split nth_append)
    ultimately have "A \<in> set pre0" using lt by (metis nth_mem)
    with quiet0 A show False by blast
  qed
  have "hs ! (length pre + 1 + length mid) = B"
    by (simp add: flat nth_append)
  moreover have "(pre0 @ a0' # post0) ! (length pre + 1 + length mid) =
                 (pre0 @ a0 # post0) ! (length pre + 1 + length mid)"
    using le by (simp add: nth_append)
  ultimately show ?thesis by (simp add: split)
qed

section \<open>Leaving the scan at the first sign of progress\<close>

text \<open>
  C4. Context \<open>A\<close> comes before context \<open>B\<close> in scan order, and \<open>A\<close> has outstanding
  work and a \<open>completed\<close> different from its snapshot. Then the run of the work item
  returns without calling \<open>recover\<close>, the watchdog object (\<open>tdr_counter\<close> included) is
  unchanged, the clients keep their numbers of contexts, and the context at \<open>B\<close>'s place
  is still \<open>B\<close>, whatever its state, frozen in particular. If moreover the scan reaches
  \<open>A\<close>, that is, no context before \<open>A\<close> ends the scan, then the scan stops at \<open>A\<close>:
  \<open>ctx_cnt\<close> is the number of contexts up to and including \<open>A\<close>, and the only write is
  the refresh of \<open>A\<close>'s snapshot.
\<close>

theorem tdr_work_early_exit:
  assumes flat: "all_hwctx (client_list xdna) = pre @ A # mid @ B # post"
    and busy: "submitted A \<noteq> completed A"
    and moved: "tdr_last_completed A \<noteq> completed A"
  shows "\<exists>clients'. amdxdna_tdr_work xdna = Inr (xdna\<lparr>client_list := clients'\<rparr>, []) \<and>
     map (\<lambda>c. length (hwctx_idr c)) clients' =
       map (\<lambda>c. length (hwctx_idr c)) (client_list xdna) \<and>
     length (all_hwctx clients') = length (all_hwctx (client_list xdna)) \<and>
     all_hwctx clients' ! (length pre + 1 + length mid) = B \<and>
     ((\<forall>h\<in>set pre. \<not> hwctx_progressed h) \<longrightarrow>
        all_hwctx clients' = pre @ A\<lparr>tdr_last_completed := completed A\<rparr> # mid @ B # post \<and>
        snd (scan_client_list (client_list xdna) tdr_scan_init) =
          \<lparr>active = True, stop_cnt = of_nat (length (filter hwctx_idle pre)),
           ctx_cnt = of_nat (length pre) + 1\<rparr>)"
proof -
  have A: "hwctx_progressed A"
    using busy moved by (simp add: hwctx_progressed_def)
  then have "\<exists>h\<in>set (all_hwctx (client_list xdna)). hwctx_progressed h"
    by (auto simp: flat)
  from first_progressed_exists [OF this] obtain pre0 a0 post0 where
    split: "all_hwctx (client_list xdna) = pre0 @ a0 # post0"
    and quiet0: "\<forall>h\<in>set pre0. \<not> hwctx_progressed h"
    and a0: "hwctx_progressed a0"
    by blast
  from tdr_work_hit [OF split quiet0 a0] obtain cl' where
    run: "amdxdna_tdr_work xdna = Inr (xdna\<lparr>client_list := cl'\<rparr>, [])"
    and flat': "all_hwctx cl' = pre0 @ a0\<lparr>tdr_last_completed := completed a0\<rparr> # post0"
    and lens: "map (\<lambda>c. length (hwctx_idr c)) cl' =
                 map (\<lambda>c. length (hwctx_idr c)) (client_list xdna)"
    by blast
  have len: "length (all_hwctx cl') = length (all_hwctx (client_list xdna))"
    by (simp add: flat' split)
  have B: "all_hwctx cl' ! (length pre + 1 + length mid) = B"
    unfolding flat' by (rule later_hwctx_untouched [OF flat A split quiet0])
  have stops: "all_hwctx cl' = pre @ A\<lparr>tdr_last_completed := completed A\<rparr> # mid @ B # post \<and>
        snd (scan_client_list (client_list xdna) tdr_scan_init) =
          \<lparr>active = True, stop_cnt = of_nat (length (filter hwctx_idle pre)),
           ctx_cnt = of_nat (length pre) + 1\<rparr>"
    if quiet: "\<forall>h\<in>set pre. \<not> hwctx_progressed h"
  proof -
    from tdr_work_hit [OF flat quiet A] obtain cl'' where
      run': "amdxdna_tdr_work xdna = Inr (xdna\<lparr>client_list := cl''\<rparr>, [])"
      and flat'': "all_hwctx cl'' = pre @ A\<lparr>tdr_last_completed := completed A\<rparr> # mid @ B # post"
      by blast
    from run run' have "xdna\<lparr>client_list := cl'\<rparr> = xdna\<lparr>client_list := cl''\<rparr>"
      by simp
    then have "client_list (xdna\<lparr>client_list := cl'\<rparr>) =
               client_list (xdna\<lparr>client_list := cl''\<rparr>)"
      by (rule arg_cong)
    then have "cl' = cl''" by simp
    with flat'' have "all_hwctx cl' = pre @ A\<lparr>tdr_last_completed := completed A\<rparr> # mid @ B # post"
      by simp
    with scan_state_hit [OF flat quiet A] show ?thesis by simp
  qed
  from run lens len B stops show ?thesis by blast
qed

theorem tdr_work_early_exit_witness:
  "\<exists>clients'. amdxdna_tdr_work ex_dev_progress =
       Inr (ex_dev_progress\<lparr>client_list := clients'\<rparr>, []) \<and>
     all_hwctx clients' =
       [\<lparr>name = ''hwctx.1'', submitted = 5, completed = 5, tdr_last_completed = 3\<rparr>,
        \<lparr>name = ''hwctx.2'', submitted = 10, completed = 8, tdr_last_completed = 8\<rparr>,
        \<lparr>name = ''hwctx.3'', submitted = 10, completed = 7, tdr_last_completed = 7\<rparr>] \<and>
     snd (scan_client_list (client_list ex_dev_progress) tdr_scan_init) =
       \<lparr>active = True, stop_cnt = 1, ctx_cnt = 2\<rparr>"
proof -
  let ?h1 = "\<lparr>name = ''hwctx.1'', submitted = 5, completed = 5, tdr_last_completed = 3\<rparr>"
  let ?A = "\<lparr>name = ''hwctx.2'', submitted = 10, completed = 8, tdr_last_completed = 7\<rparr>"
  let ?B = "\<lparr>name = ''hwctx.3'', submitted = 10, completed = 7, tdr_last_completed = 7\<rparr>"
  have flat: "all_hwctx (client_list ex_dev_progress) = [?h1] @ ?A # [] @ ?B # []"
    by (simp add: ex_dev_progress_def all_hwctx_def)
  have busy: "submitted ?A \<noteq> completed ?A" by simp
  have moved: "tdr_last_completed ?A \<noteq> completed ?A" by simp
  have reach: "\<forall>h\<in>set [?h1]. \<not> hwctx_progressed h"
    by (simp add: hwctx_progressed_def)
  from tdr_work_early_exit [OF flat busy moved] reach show ?thesis
    by (auto simp: hwctx_idle_def hwctx_progressed_def)
qed

lemma tdr_work_keeps_lifecycle:
  assumes "amdxdna_tdr_work xdna = Inr (xdna', evs)"
  shows "ops_recover xdna' = ops_recover xdna \<and>
         started (tdr xdna') = started (tdr xdna) \<and>
         timer_pending (tdr xdna') = timer_pending (tdr xdna) \<and>
         work_pending (tdr xdna') = work_pending (tdr xdna)"
  using assms
  by (auto simp: amdxdna_tdr_work_def case_prod_unfold Let_def split: if_splits)

lemma tdr_work_null_call:
  assumes "amdxdna_tdr_work xdna = Inl err"
  shows "\<not> ops_recover xdna"
  using assms
  by (auto simp: amdxdna_tdr_work_def case_prod_unfold Let_def split: if_splits)

lemma sys_step_armed_ok:
  assumes "tdr_armed_ok (sys_dev s)"
  shows "\<exists>s'. sys_step e s = Inr s' \<and> tdr_armed_ok (sys_dev s')"
proof (cases e)
  case (Start t)
  with assms show ?thesis
    by (auto simp: tdr_armed_ok_def amdxdna_tdr_start_def)
next
  case Stop
  with assms show ?thesis
    by (auto simp: tdr_armed_ok_def amdxdna_tdr_stop_def)
next
  case TimerExpire
  with assms show ?thesis
    by (auto simp: tdr_armed_ok_def amdxdna_tdr_timer_def)
next
  case WorkerRun
  show ?thesis
  proof (cases "work_pending (tdr (sys_dev s))")
    case False
    with WorkerRun assms show ?thesis by simp
  next
    case True
    let ?d = "(sys_dev s)\<lparr>tdr := (tdr (sys_dev s))\<lparr>work_pending := False\<rparr>\<rparr>"
    from True assms have rec: "ops_recover ?d" by (simp add: tdr_armed_ok_def)
    show ?thesis
    proof (cases "amdxdna_tdr_work ?d")
      case (Inl err)
      from tdr_work_null_call [OF Inl] rec show ?thesis by simp
    next
      case (Inr r)
      obtain xdna' evs where r: "r = (xdna', evs)" by (cases r)
      from Inr r have run: "amdxdna_tdr_work ?d = Inr (xdna', evs)" by simp
      from tdr_work_keeps_lifecycle [OF run] rec have "tdr_armed_ok xdna'"
        by (simp add: tdr_armed_ok_def)
      with WorkerRun True run show ?thesis by simp
    qed
  qed
next
  case (Env clients)
  with assms show ?thesis by (simp add: tdr_armed_ok_def)
qed

lemma sys_run_armed_ok:
  assumes "tdr_armed_ok (sys_dev s)"
  shows "\<exists>s'. sys_run evs s = Inr s' \<and> tdr_armed_ok (sys_dev s')"
  using assms
proof (induction evs arbitrary: s)
  case Nil
  then show ?case by simp
next
  case (Cons e evs)
  from sys_step_armed_ok [OF Cons.prems, of e] obtain s1 where
    step: "sys_step e s = Inr s1" and ok: "tdr_armed_ok (sys_dev s1)"
    by blast
  from Cons.IH [OF ok] step show ?case by simp
qed

section \<open>The recovery operation is present whenever it is called\<close>

text \<open>
  C10. \<open>amdxdna_tdr_work\<close> calls \<open>recover\<close> without testing it, and the model makes that
  call an error when \<open>recover\<close> is NULL. Starting from a device on which the watchdog has
  never been started, no sequence of starts, stops, timer expiries, worker runs and
  changes of the client list ends in that error: every sequence runs through. The reason
  is kept along the way: the timer or the work item is pending only on a device whose
  \<open>recover\<close> is present, since \<open>amdxdna_tdr_start\<close> arms nothing when it is NULL.
\<close>

theorem tdr_recover_never_null:
  assumes "tdr_fresh (sys_dev s)"
  shows "\<exists>s'. sys_run evs s = Inr s' \<and>
           (timer_pending (tdr (sys_dev s')) \<or> work_pending (tdr (sys_dev s')) \<longrightarrow>
              ops_recover (sys_dev s'))"
proof -
  from assms have "tdr_armed_ok (sys_dev s)"
    by (simp add: tdr_fresh_def tdr_armed_ok_def)
  from sys_run_armed_ok [OF this, of evs] show ?thesis
    by (simp add: tdr_armed_ok_def)
qed

theorem tdr_recover_never_null_witness:
  "\<exists>s'. sys_run [Start 2, TimerExpire, WorkerRun] ex_sys_fresh = Inr s' \<and>
     recover_calls s' = 1 \<and> timer_pending (tdr (sys_dev s')) \<and> ops_recover (sys_dev s')"
proof -
  have fresh: "tdr_fresh (sys_dev ex_sys_fresh)"
    by (simp add: tdr_fresh_def ex_sys_fresh_def)
  have run: "\<exists>s'. sys_run [Start 2, TimerExpire, WorkerRun] ex_sys_fresh = Inr s' \<and>
     recover_calls s' = 1 \<and> timer_pending (tdr (sys_dev s'))"
    by (simp add: ex_sys_fresh_def ex_dev_def amdxdna_tdr_start_def
        amdxdna_tdr_timer_def amdxdna_tdr_work_def tdr_scan_init_def)
  from tdr_recover_never_null [OF fresh, of "[Start 2, TimerExpire, WorkerRun]"]
    run show ?thesis
    by (auto simp del: sys_run.simps)
qed

lemma sys_step_disabled:
  assumes fresh: "tdr_fresh (sys_dev s)" and dis: "start_disabled (sys_dev s) e"
  shows "\<exists>clients. sys_step e s = Inr (s\<lparr>sys_dev := (sys_dev s)\<lparr>client_list := clients\<rparr>\<rparr>)"
proof (cases e)
  case (Start t)
  with dis have "amdxdna_tdr_start t (sys_dev s) = sys_dev s"
    by (auto simp: amdxdna_tdr_start_def)
  with Start have "sys_step e s = Inr (s\<lparr>sys_dev := (sys_dev s)\<lparr>client_list := client_list (sys_dev s)\<rparr>\<rparr>)"
    by simp
  then show ?thesis by blast
next
  case Stop
  with fresh have "sys_step e s = Inr (s\<lparr>sys_dev := (sys_dev s)\<lparr>client_list := client_list (sys_dev s)\<rparr>\<rparr>)"
    by (simp add: tdr_fresh_def amdxdna_tdr_stop_def)
  then show ?thesis by blast
next
  case TimerExpire
  with fresh have "sys_step e s = Inr (s\<lparr>sys_dev := (sys_dev s)\<lparr>client_list := client_list (sys_dev s)\<rparr>\<rparr>)"
    by (simp add: tdr_fresh_def)
  then show ?thesis by blast
next
  case WorkerRun
  with fresh have "sys_step e s = Inr (s\<lparr>sys_dev := (sys_dev s)\<lparr>client_list := client_list (sys_dev s)\<rparr>\<rparr>)"
    by (simp add: tdr_fresh_def)
  then show ?thesis by blast
next
  case (Env clients)
  then have "sys_step e s = Inr (s\<lparr>sys_dev := (sys_dev s)\<lparr>client_list := clients\<rparr>\<rparr>)"
    by simp
  then show ?thesis by blast
qed

lemma sys_run_disabled:
  assumes "tdr_fresh (sys_dev s)" and "\<forall>e\<in>set evs. start_disabled (sys_dev s) e"
  shows "\<exists>clients. sys_run evs s = Inr (s\<lparr>sys_dev := (sys_dev s)\<lparr>client_list := clients\<rparr>\<rparr>)"
  using assms
proof (induction evs arbitrary: s)
  case Nil
  have "s = s\<lparr>sys_dev := (sys_dev s)\<lparr>client_list := client_list (sys_dev s)\<rparr>\<rparr>" by simp
  then have "sys_run [] s = Inr (s\<lparr>sys_dev := (sys_dev s)\<lparr>client_list := client_list (sys_dev s)\<rparr>\<rparr>)"
    by simp
  then show ?case by blast
next
  case (Cons e evs)
  have dis: "start_disabled (sys_dev s) e" using Cons.prems(2) by simp
  from sys_step_disabled [OF Cons.prems(1) dis] obtain clients where
    step: "sys_step e s = Inr (s\<lparr>sys_dev := (sys_dev s)\<lparr>client_list := clients\<rparr>\<rparr>)"
    by blast
  let ?s1 = "s\<lparr>sys_dev := (sys_dev s)\<lparr>client_list := clients\<rparr>\<rparr>"
  have fresh1: "tdr_fresh (sys_dev ?s1)"
    using Cons.prems(1) by (simp add: tdr_fresh_def)
  have same: "start_disabled ((sys_dev s)\<lparr>client_list := clients\<rparr>) e' =
              start_disabled (sys_dev s) e'" for e'
    by (cases e') simp_all
  have dis1: "\<forall>e\<in>set evs. start_disabled (sys_dev ?s1) e"
    using Cons.prems(2) by (simp add: same)
  from Cons.IH [OF fresh1 dis1] obtain clients' where
    "sys_run evs ?s1 = Inr (?s1\<lparr>sys_dev := (sys_dev ?s1)\<lparr>client_list := clients'\<rparr>\<rparr>)"
    by blast
  with step have "sys_run (e # evs) s = Inr (s\<lparr>sys_dev := (sys_dev s)\<lparr>client_list := clients'\<rparr>\<rparr>)"
    by simp
  then show ?case by blast
qed

section \<open>A disabled watchdog\<close>

text \<open>
  C6. When \<open>recover\<close> is NULL or \<open>timeout_in_sec\<close> is zero, \<open>amdxdna_tdr_start\<close> returns
  the device as it found it; it has no error result. If the watchdog had never been
  started, then after this call and any further sequence of events in which every start
  is again a disabled one, \<open>started\<close> is still false, the timer is not armed, the
  work item is not queued, and \<open>amdxdna_tdr_work\<close> has not been executed (nor
  \<open>recover\<close> called) a single time.
\<close>

theorem tdr_start_disabled_is_noop:
  assumes "\<not> ops_recover (sys_dev s) \<or> timeout_in_sec = 0"
  shows "amdxdna_tdr_start timeout_in_sec (sys_dev s) = sys_dev s \<and>
     (tdr_fresh (sys_dev s) \<and> (\<forall>e\<in>set evs. start_disabled (sys_dev s) e) \<longrightarrow>
        (\<exists>s'. sys_run (Start timeout_in_sec # evs) s = Inr s' \<and>
              \<not> started (tdr (sys_dev s')) \<and>
              \<not> timer_pending (tdr (sys_dev s')) \<and>
              \<not> work_pending (tdr (sys_dev s')) \<and>
              tdr (sys_dev s') = tdr (sys_dev s) \<and>
              work_runs s' = work_runs s \<and>
              recover_calls s' = recover_calls s))"
proof -
  have noop: "amdxdna_tdr_start timeout_in_sec (sys_dev s) = sys_dev s"
    using assms by (auto simp: amdxdna_tdr_start_def)
  have later: "\<exists>s'. sys_run (Start timeout_in_sec # evs) s = Inr s' \<and>
              \<not> started (tdr (sys_dev s')) \<and>
              \<not> timer_pending (tdr (sys_dev s')) \<and>
              \<not> work_pending (tdr (sys_dev s')) \<and>
              tdr (sys_dev s') = tdr (sys_dev s) \<and>
              work_runs s' = work_runs s \<and>
              recover_calls s' = recover_calls s"
    if fresh: "tdr_fresh (sys_dev s)" and dis: "\<forall>e\<in>set evs. start_disabled (sys_dev s) e"
  proof -
    have all: "\<forall>e\<in>set (Start timeout_in_sec # evs). start_disabled (sys_dev s) e"
      using assms dis by simp
    from sys_run_disabled [OF fresh all] obtain clients where
      "sys_run (Start timeout_in_sec # evs) s =
         Inr (s\<lparr>sys_dev := (sys_dev s)\<lparr>client_list := clients\<rparr>\<rparr>)"
      by blast
    with fresh show ?thesis
      by (simp add: tdr_fresh_def del: sys_run.simps)
  qed
  from noop later show ?thesis by blast
qed

theorem tdr_start_disabled_is_noop_witness:
  "amdxdna_tdr_start 2 (sys_dev ex_sys_norecover) = sys_dev ex_sys_norecover \<and>
   amdxdna_tdr_start 0 (sys_dev ex_sys_fresh) = sys_dev ex_sys_fresh \<and>
   (\<exists>s'. sys_run [Start 2, TimerExpire, WorkerRun, Start 0, Stop, Env [], WorkerRun]
            ex_sys_norecover = Inr s' \<and>
          \<not> started (tdr (sys_dev s')) \<and> \<not> timer_pending (tdr (sys_dev s')) \<and>
          work_runs s' = 0 \<and> recover_calls s' = 0)"
proof -
  have dis: "\<not> ops_recover (sys_dev ex_sys_norecover) \<or> (2 :: 32 word) = 0"
    by (simp add: ex_sys_norecover_def)
  have fresh: "tdr_fresh (sys_dev ex_sys_norecover)"
    by (simp add: ex_sys_norecover_def ex_sys_fresh_def tdr_fresh_def)
  have evs: "\<forall>e\<in>set [TimerExpire, WorkerRun, Start 0, Stop, Env [], WorkerRun].
               start_disabled (sys_dev ex_sys_norecover) e"
    by simp
  have zero: "work_runs ex_sys_norecover = 0" "recover_calls ex_sys_norecover = 0"
    by (simp_all add: ex_sys_norecover_def ex_sys_fresh_def)
  have dis0: "\<not> ops_recover (sys_dev ex_sys_fresh) \<or> (0 :: 32 word) = 0"
    by simp
  from tdr_start_disabled_is_noop [OF dis, of "[TimerExpire, WorkerRun, Start 0, Stop, Env [], WorkerRun]"]
    tdr_start_disabled_is_noop [OF dis0, of "[]"]
    fresh evs zero show ?thesis
    by (auto simp del: sys_run.simps)
qed

section \<open>Stopping the watchdog\<close>

text \<open>
  C9. \<open>amdxdna_tdr_stop\<close> on a watchdog that was never started returns the device as it
  found it. Called twice in a row, on any device and in particular after a start, the
  second call changes nothing that the first has left: the timer is already deleted and
  \<open>timer_delete_sync\<close> on it finds nothing to do. Each call returns (in the system, a stop
  event always yields a next state), so the two-stop run and the one-stop run end in the
  same state.
\<close>

theorem tdr_stop_idempotent:
  "(\<not> started (tdr (sys_dev s)) \<longrightarrow> amdxdna_tdr_stop (sys_dev s) = sys_dev s) \<and>
   amdxdna_tdr_stop (amdxdna_tdr_stop (sys_dev s)) = amdxdna_tdr_stop (sys_dev s) \<and>
   amdxdna_tdr_stop (amdxdna_tdr_stop (amdxdna_tdr_start timeout_in_sec (sys_dev s))) =
     amdxdna_tdr_stop (amdxdna_tdr_start timeout_in_sec (sys_dev s)) \<and>
   (\<exists>s'. sys_run [Stop] s = Inr s' \<and> sys_run [Stop, Stop] s = Inr s') \<and>
   (\<not> started (tdr (sys_dev s)) \<longrightarrow> sys_run [Stop] s = Inr s)"
proof -
  have idem: "amdxdna_tdr_stop (amdxdna_tdr_stop xdna) = amdxdna_tdr_stop xdna" for xdna
    by (simp add: amdxdna_tdr_stop_def)
  have never: "\<not> started (tdr (sys_dev s)) \<longrightarrow> amdxdna_tdr_stop (sys_dev s) = sys_dev s"
    by (simp add: amdxdna_tdr_stop_def)
  have runs: "\<exists>s'. sys_run [Stop] s = Inr s' \<and> sys_run [Stop, Stop] s = Inr s'"
    by (simp add: idem)
  have never_run: "\<not> started (tdr (sys_dev s)) \<longrightarrow> sys_run [Stop] s = Inr s"
    by (simp add: amdxdna_tdr_stop_def)
  from idem never runs never_run show ?thesis by blast
qed

theorem tdr_stop_idempotent_witness:
  "amdxdna_tdr_stop (sys_dev ex_sys_fresh) = sys_dev ex_sys_fresh \<and>
   sys_run [Stop] ex_sys_fresh = Inr ex_sys_fresh \<and>
   amdxdna_tdr_stop (amdxdna_tdr_stop (amdxdna_tdr_start 2 (sys_dev ex_sys_fresh))) =
     amdxdna_tdr_stop (amdxdna_tdr_start 2 (sys_dev ex_sys_fresh)) \<and>
   timer_pending (tdr (amdxdna_tdr_start 2 (sys_dev ex_sys_fresh))) \<and>
   \<not> timer_pending (tdr (amdxdna_tdr_stop (amdxdna_tdr_start 2 (sys_dev ex_sys_fresh))))"
proof -
  have never: "\<not> started (tdr (sys_dev ex_sys_fresh))"
    by (simp add: ex_sys_fresh_def)
  have armed: "timer_pending (tdr (amdxdna_tdr_start 2 (sys_dev ex_sys_fresh)))"
    by (simp add: ex_sys_fresh_def ex_dev_def amdxdna_tdr_start_def)
  have off: "\<not> timer_pending (tdr (amdxdna_tdr_stop (amdxdna_tdr_start 2 (sys_dev ex_sys_fresh))))"
    by (simp add: ex_sys_fresh_def ex_dev_def amdxdna_tdr_start_def amdxdna_tdr_stop_def)
  from tdr_stop_idempotent [of ex_sys_fresh 2] never armed off show ?thesis
    by (simp del: sys_run.simps)
qed

text \<open>
  C2. \<open>amdxdna_tdr_stop\<close> deletes the timer and nothing else. On the example device:
  the watchdog is started, the timer expires once (the handler queues the work item and
  re-arms the timer), and stop is called before a worker has picked the item up. When
  stop has returned, the timer is no longer armed but the work item is still queued; the
  worker then runs \<open>amdxdna_tdr_work\<close>, which, the contexts being stuck, also calls
  \<open>recover\<close>. So an evaluation executes after stop has returned.
\<close>

theorem tdr_stop_leaves_work_queued:
  "sys_run [Start 2, TimerExpire, Stop] ex_sys_fresh =
     Inr \<lparr>sys_dev = ex_dev\<lparr>tdr := \<lparr>timer_pending = False, work_pending = True,
                                    tdr_counter = 0, started = True\<rparr>\<rparr>,
          work_runs = 0, recover_calls = 0\<rparr> \<and>
   sys_step WorkerRun
       \<lparr>sys_dev = ex_dev\<lparr>tdr := \<lparr>timer_pending = False, work_pending = True,
                                  tdr_counter = 0, started = True\<rparr>\<rparr>,
        work_runs = 0, recover_calls = 0\<rparr> =
     Inr \<lparr>sys_dev = ex_dev\<lparr>tdr := \<lparr>timer_pending = False, work_pending = False,
                                    tdr_counter = 1, started = True\<rparr>\<rparr>,
          work_runs = 1, recover_calls = 1\<rparr>"
  by (simp add: ex_sys_fresh_def ex_dev_def amdxdna_tdr_start_def amdxdna_tdr_stop_def
      amdxdna_tdr_timer_def amdxdna_tdr_work_def tdr_scan_init_def)

end
